theory Spec2Isabelle
  imports Main "HOL-Library.Word" "HOL-Library.Multiset"
begin

section \<open>The messenger (package messenger)\<close>

subsection \<open>Data\<close>

text \<open>
  The declarations of \<open>common.ChannelIDEnum\<close>, \<open>common.Bytes\<close>, \<open>p2ptypes.Message\<close>,
  \<open>p2p.MessageHandler\<close>, \<open>pr.Peer\<close> and \<open>pr.PeerTable\<close> are imported by the messenger and
  are not part of the sources at hand. A channel ID is taken as a 16-bit unsigned number
  (the message envelope of the specification), a byte string as a list of bytes.
\<close>

type_synonym ChannelIDEnum = "16 word"
type_synonym Bytes = "8 word list"

record Message =
  ChannelID :: ChannelIDEnum
  Content :: Bytes

text \<open>
  A message handler is an object behind an interface. The messenger calls only
  \<open>GetChannelIDs\<close> on it when registering; \<open>handlerRef\<close> stands for the identity of the
  object (the pointer the interface value holds), so that two handlers listing the same
  channel IDs remain different handlers.
\<close>

record MessageHandler =
  handlerRef :: nat
  GetChannelIDs :: "ChannelIDEnum list"

text \<open>
  A peer is used through two methods: \<open>ID()\<close> and \<open>Send(channelID, content)\<close>, the latter
  answering whether the write to the connection succeeded. The outcome of the write is
  not decided by the messenger, so it is a field of the peer.
\<close>

record Peer =
  peer_ID :: string
  peer_Send :: "ChannelIDEnum \<Rightarrow> Bytes \<Rightarrow> bool"

text \<open>
  The peer table is used through \<open>GetAllPeers()\<close> (a slice of peers) and
  \<open>GetPeer(peerID)\<close> (a peer or nil). Both are taken as given; nothing is assumed
  about how they relate.
\<close>

record PeerTable =
  GetAllPeers :: "Peer list"
  GetPeer :: "string \<Rightarrow> Peer option"

text \<open>
  The Go map \<open>msgHandlerMap\<close> answers nil for a key that was never stored. A handler
  that reaches the store in \<open>AddMessageHandler\<close> has answered \<open>GetChannelIDs()\<close>, so it
  is not the nil interface, and a stored entry is never nil: \<open>None\<close> is "reads nil".
  The discovery manager plays no part in the functions below and is left out.
\<close>

record Messenger =
  msgHandlerMap :: "ChannelIDEnum \<rightharpoonup> MessageHandler"
  peerTable :: PeerTable
  nodeAddress :: string

subsection \<open>Send\<close>

definition Send :: "Messenger \<Rightarrow> string \<Rightarrow> Message \<Rightarrow> bool" where
  "Send msgr peerID message =
     (case GetPeer (peerTable msgr) peerID of
        None \<Rightarrow> False
      | Some peer \<Rightarrow> peer_Send peer (ChannelID message) (Content message))"

subsection \<open>Broadcast\<close>

text \<open>
  \<open>make(chan bool, n)\<close> is a channel with a buffer of \<open>n\<close> places: \<open>cap\<close> is \<open>n\<close>,
  \<open>buf\<close> the markers sent and not yet received, oldest first.
\<close>

record Chan =
  cap :: nat
  buf :: "bool list"

text \<open>
  \<open>Broadcast\<close> makes the channel, starts one goroutine per peer of the peer table and
  returns the channel at once. What the call leaves behind is the channel together with
  the goroutines that have not sent their marker yet; \<open>received\<close> collects what the
  caller has taken off the channel since.
\<close>

record BroadcastRun =
  successes :: Chan
  goroutines :: "Peer list"
  received :: "bool list"

definition Broadcast :: "Messenger \<Rightarrow> Message \<Rightarrow> BroadcastRun" where
  "Broadcast msgr message =
     (let allPeers = GetAllPeers (peerTable msgr)
      in \<lparr>successes = \<lparr>cap = length allPeers, buf = []\<rparr>,
          goroutines = allPeers, received = []\<rparr>)"

text \<open>
  The body of a goroutine, \<open>success := msgr.Send(peer.ID(), message); successes <- success\<close>,
  run for the \<open>i\<close>-th goroutine still waiting. A send on a buffered channel goes
  through when the buffer has room and blocks otherwise: \<open>None\<close> is "cannot run now".
  The messenger is the same throughout: the peer table is not changed while the
  broadcast is under way.
\<close>

definition goroutineSend ::
  "Messenger \<Rightarrow> Message \<Rightarrow> nat \<Rightarrow> BroadcastRun \<Rightarrow> BroadcastRun option" where
  "goroutineSend msgr message i r =
     (if i < length (goroutines r) \<and> length (buf (successes r)) < cap (successes r)
      then Some (r\<lparr>successes := (successes r)
                     \<lparr>buf := buf (successes r) @
                        [Send msgr (peer_ID (goroutines r ! i)) message]\<rparr>,
                   goroutines := take i (goroutines r) @ drop (Suc i) (goroutines r)\<rparr>)
      else None)"

text \<open>The caller of \<open>Broadcast\<close> receives from the channel: the oldest marker leaves the buffer.\<close>

definition chanReceive :: "BroadcastRun \<Rightarrow> BroadcastRun option" where
  "chanReceive r =
     (case buf (successes r) of
        [] \<Rightarrow> None
      | v # rest \<Rightarrow> Some (r\<lparr>successes := (successes r)\<lparr>buf := rest\<rparr>,
                             received := received r @ [v]\<rparr>))"

text \<open>
  The Go scheduler picks which goroutine runs next. A schedule is one such sequence of
  picks; it yields \<open>None\<close> when it asks for a step that cannot run at that point.
\<close>

datatype event = GoroutineSends nat | CallerReceives

fun schedule ::
  "Messenger \<Rightarrow> Message \<Rightarrow> BroadcastRun \<Rightarrow> event list \<Rightarrow> BroadcastRun option" where
  "schedule msgr message r [] = Some r"
| "schedule msgr message r (GoroutineSends i # es) =
     (case goroutineSend msgr message i r of
        None \<Rightarrow> None
      | Some r' \<Rightarrow> schedule msgr message r' es)"
| "schedule msgr message r (CallerReceives # es) =
     (case chanReceive r of
        None \<Rightarrow> None
      | Some r' \<Rightarrow> schedule msgr message r' es)"

text \<open>
  The markers delivered on the channel so far, and the markers a list of peers stands
  for: the result of \<open>Send\<close> to each of them, counted with repetition.
\<close>

definition delivered :: "BroadcastRun \<Rightarrow> bool list" where
  "delivered r = received r @ buf (successes r)"

definition markers :: "Messenger \<Rightarrow> Message \<Rightarrow> Peer list \<Rightarrow> bool multiset" where
  "markers msgr message ps =
     image_mset (\<lambda>peer. Send msgr (peer_ID peer) message) (mset ps)"

definition accounted :: "Messenger \<Rightarrow> Message \<Rightarrow> BroadcastRun \<Rightarrow> bool" where
  "accounted msgr message r =
     (cap (successes r) = length (GetAllPeers (peerTable msgr)) \<and>
      mset (delivered r) + markers msgr message (goroutines r) =
        markers msgr message (GetAllPeers (peerTable msgr)))"

subsection \<open>AddMessageHandler\<close>

text \<open>
  The loop over \<open>channelIDs\<close>: the first channel ID that reads non-nil in the map as it
  stands at that moment ends the call with \<open>false\<close>; the entries written before stay.
\<close>

fun addMessageHandlerLoop ::
  "Messenger \<Rightarrow> MessageHandler \<Rightarrow> ChannelIDEnum list \<Rightarrow> Messenger \<times> bool" where
  "addMessageHandlerLoop msgr msgHandler [] = (msgr, True)"
| "addMessageHandlerLoop msgr msgHandler (channelID # rest) =
     (if msgHandlerMap msgr channelID \<noteq> None then (msgr, False)
      else addMessageHandlerLoop
             (msgr\<lparr>msgHandlerMap := (msgHandlerMap msgr)(channelID \<mapsto> msgHandler)\<rparr>)
             msgHandler rest)"

definition AddMessageHandler :: "Messenger \<Rightarrow> MessageHandler \<Rightarrow> Messenger \<times> bool" where
  "AddMessageHandler msgr msgHandler =
     addMessageHandlerLoop msgr msgHandler (GetChannelIDs msgHandler)"

definition ID :: "Messenger \<Rightarrow> string" where
  "ID msgr = nodeAddress msgr"

subsection \<open>Concrete messengers\<close>

definition noPeers :: PeerTable where
  "noPeers = \<lparr>GetAllPeers = [], GetPeer = (\<lambda>_. None)\<rparr>"

definition freshMessenger :: Messenger where
  "freshMessenger = \<lparr>msgHandlerMap = Map.empty, peerTable = noPeers, nodeAddress = ''node''\<rparr>"

definition blockHandler :: MessageHandler where
  "blockHandler = \<lparr>handlerRef = 1, GetChannelIDs = [3]\<rparr>"

definition syncHandler :: MessageHandler where
  "syncHandler = \<lparr>handlerRef = 2, GetChannelIDs = [1, 2, 3]\<rparr>"

definition twiceHandler :: MessageHandler where
  "twiceHandler = \<lparr>handlerRef = 3, GetChannelIDs = [7, 7]\<rparr>"

definition registeredMessenger :: Messenger where
  "registeredMessenger = fst (AddMessageHandler freshMessenger blockHandler)"

text \<open>Two connected peers: the write to alice succeeds, the write to bob fails.\<close>

definition alice :: Peer where
  "alice = \<lparr>peer_ID = ''alice'', peer_Send = (\<lambda>_ _. True)\<rparr>"

definition bob :: Peer where
  "bob = \<lparr>peer_ID = ''bob'', peer_Send = (\<lambda>_ _. False)\<rparr>"

definition twoPeers :: PeerTable where
  "twoPeers = \<lparr>GetAllPeers = [alice, bob],
               GetPeer = (\<lambda>peerID. if peerID = ''alice'' then Some alice
                                   else if peerID = ''bob'' then Some bob else None)\<rparr>"

definition connectedMessenger :: Messenger where
  "connectedMessenger =
     \<lparr>msgHandlerMap = Map.empty, peerTable = twoPeers, nodeAddress = ''node''\<rparr>"

definition hello :: Message where
  "hello = \<lparr>ChannelID = 1, Content = [104, 105]\<rparr>"

section \<open>Fork choice of the consensus engine\<close>

text \<open>
  The consensus engine and the chain store are exercised by \<open>engine_test.go\<close>
  (\<open>TestTipSelection\<close>), but their code is not among the sources. The definitions of
  this section are written from the specification, sections 3 and 4.2.
\<close>

subsection \<open>Blocks and the chain tree\<close>

text \<open>
  Modelled from the spec: the block (section 3), of which the fork choice reads the hash
  and the height. The declaration of the block type is missing from the sources. A hash
  stands as the number its bytes spell, most significant byte first, so that the order
  of the numbers is the lexicographic order of the hashes.
\<close>

type_synonym Hash = nat

record Block =
  Hash :: Hash
  Parent :: Hash
  Height :: nat
  Epoch :: nat

text \<open>
  Modelled from the spec: the extended block, "the in-store wrapper around a Block,
  augmented with two independent boolean flags", \<open>Valid\<close> and \<open>HasValidatorUpdate\<close>.
  The chain store's type is missing from the sources.
\<close>

record ExtendedBlock = Block +
  Valid :: bool
  HasValidatorUpdate :: bool

text \<open>
  Modelled from the spec: the chain, "an in-memory tree rooted at a genesis block";
  the children the store records for a block are the subtrees of its node. The chain
  type of package blockchain is missing from the sources.
\<close>

datatype Chain = Node (rootBlock: ExtendedBlock) (children: "Chain list")

fun mapBlocks :: "(ExtendedBlock \<Rightarrow> ExtendedBlock) \<Rightarrow> Chain \<Rightarrow> Chain" where
  "mapBlocks f (Node b cs) = Node (f b) (map (mapBlocks f) cs)"

text \<open>
  Modelled from the spec: \<open>MarkBlockValid(hash)\<close> and \<open>MarkBlockHasValidatorUpdate(hash)\<close>
  of the block store contract (section 6), which set the flag of the block with that hash
  and are idempotent. The block store is missing from the sources.
\<close>

definition MarkBlockValid :: "Hash \<Rightarrow> Chain \<Rightarrow> Chain" where
  "MarkBlockValid h = mapBlocks (\<lambda>b. if Hash b = h then b\<lparr>Valid := True\<rparr> else b)"


subsection \<open>Tip selection\<close>

text \<open>
  Modelled from the spec: the choice between two candidate tips (section 4.2): the
  higher block wins, and "among equal-height candidates, ties break on lowest Hash".
  \<open>ConsensusEngine.GetTipToVote\<close> is missing from the sources.
\<close>

definition higher :: "ExtendedBlock \<Rightarrow> ExtendedBlock \<Rightarrow> ExtendedBlock" where
  "higher x y =
     (if Height x < Height y \<or> (Height x = Height y \<and> Hash y < Hash x) then y else x)"

text \<open>
  Modelled from the spec: "if no non-root block qualifies, returns the root"; otherwise
  the best of the candidates. Part of the missing \<open>GetTipToVote\<close> and \<open>GetTipToExtend\<close>.
\<close>

definition highestOf :: "ExtendedBlock \<Rightarrow> ExtendedBlock list \<Rightarrow> ExtendedBlock" where
  "highestOf root candidates =
     (case candidates of [] \<Rightarrow> root | b # bs \<Rightarrow> foldl higher b bs)"

text \<open>
  Modelled from the spec: the traversal of \<open>GetTipToVote\<close>, "a read-only traversal over
  the chain tree from the root", which descends only through blocks that have \<open>Valid\<close>
  set. \<open>ConsensusEngine.GetTipToVote\<close> is missing from the sources.
\<close>

fun voteCandidates :: "Chain \<Rightarrow> ExtendedBlock list" where
  "voteCandidates (Node b cs) =
     (if Valid b then b # concat (map voteCandidates cs) else [])"

text \<open>
  Modelled from the spec: \<open>GetTipToVote()\<close>, "the highest block B in the chain tree such
  that every block on the path from root to B (inclusive) has Valid set".
  \<open>ConsensusEngine.GetTipToVote\<close> is missing from the sources.
\<close>

definition GetTipToVote :: "Chain \<Rightarrow> ExtendedBlock" where
  "GetTipToVote c = highestOf (rootBlock c) (voteCandidates c)"



subsection \<open>Paths of the tree\<close>

text \<open>
  The properties of the two tips are stated over the paths of the chain tree: every
  path from the root to a block of the tree, the root first and that block last.
\<close>

fun paths :: "Chain \<Rightarrow> ExtendedBlock list list" where
  "paths (Node b cs) = [b] # map ((#) b) (concat (map paths cs))"



subsection \<open>The chain of TestTipSelection\<close>

text \<open>
  The test builds \<open>root \<rightarrow> a1 \<rightarrow> a2\<close> and \<open>root \<rightarrow> b1 \<rightarrow> b2 \<rightarrow> b3\<close>, marks the five blocks
  valid and then marks \<open>b2\<close> as carrying a validator update. The hashes are 1 for the
  root, 11 and 12 for the a-branch, 21, 22 and 23 for the b-branch; a block's height is
  its distance from the root, and the root is valid from the start.
\<close>

definition testBlock :: "Hash \<Rightarrow> Hash \<Rightarrow> nat \<Rightarrow> bool \<Rightarrow> ExtendedBlock" where
  "testBlock h p n v =
     \<lparr>Hash = h, Parent = p, Height = n, Epoch = n, Valid = v, HasValidatorUpdate = False\<rparr>"

definition tipSelectionChain :: Chain where
  "tipSelectionChain =
     Node (testBlock 1 0 0 True)
       [Node (testBlock 11 1 1 False) [Node (testBlock 12 11 2 False) []],
        Node (testBlock 21 1 1 False)
          [Node (testBlock 22 21 2 False) [Node (testBlock 23 22 3 False) []]]]"

definition allValidChain :: Chain where
  "allValidChain =
     MarkBlockValid 23 (MarkBlockValid 22 (MarkBlockValid 21
       (MarkBlockValid 12 (MarkBlockValid 11 tipSelectionChain))))"


section \<open>Properties of the fork choice\<close>

lemma paths_nonempty: "p \<in> set (paths c) \<Longrightarrow> p \<noteq> []"
  by (cases c) auto

lemma voteCandidates_paths:
  "set (voteCandidates c) = last ` {p \<in> set (paths c). list_all Valid p}"
proof (induction c)
  case (Node b cs)
  show ?case
  proof (cases "Valid b")
    case False
    then show ?thesis by auto
  next
    case True
    have "set (voteCandidates (Node b cs)) = insert b (\<Union>c \<in> set cs. set (voteCandidates c))"
      using True by simp
    also have "\<dots> = insert b (\<Union>c \<in> set cs. last ` {p \<in> set (paths c). list_all Valid p})"
      using Node.IH by simp
    also have "\<dots> = last ` {p \<in> set (paths (Node b cs)). list_all Valid p}"
    proof (intro set_eqI iffI)
      fix x
      assume "x \<in> insert b (\<Union>c \<in> set cs. last ` {p \<in> set (paths c). list_all Valid p})"
      then consider "x = b" | c q where "c \<in> set cs" "q \<in> set (paths c)" "list_all Valid q" "x = last q"
        by auto
      then show "x \<in> last ` {p \<in> set (paths (Node b cs)). list_all Valid p}"
      proof cases
        case 1
        have "[b] \<in> {p \<in> set (paths (Node b cs)). list_all Valid p}" using True by simp
        then have "last [b] \<in> last ` {p \<in> set (paths (Node b cs)). list_all Valid p}"
          by (rule imageI)
        with 1 show ?thesis by simp
      next
        case 2
        then have "q \<noteq> []" by (auto dest: paths_nonempty)
        then have l: "last (b # q) = last q" by simp
        have "b # q \<in> {p \<in> set (paths (Node b cs)). list_all Valid p}"
          using 2 True by auto
        then have "last (b # q) \<in> last ` {p \<in> set (paths (Node b cs)). list_all Valid p}"
          by (rule imageI)
        with l 2 show ?thesis by simp
      qed
    next
      fix x
      assume "x \<in> last ` {p \<in> set (paths (Node b cs)). list_all Valid p}"
      then obtain p where p: "p \<in> set (paths (Node b cs))" "list_all Valid p" "x = last p"
        by auto
      from p(1) consider "p = [b]" | c q where "c \<in> set cs" "q \<in> set (paths c)" "p = b # q"
        by auto
      then show "x \<in> insert b (\<Union>c \<in> set cs. last ` {p \<in> set (paths c). list_all Valid p})"
      proof cases
        case 1
        with p show ?thesis by simp
      next
        case 2
        then have "q \<noteq> []" by (auto dest: paths_nonempty)
        with 2 p have "x = last q" "list_all Valid q" by simp_all
        with 2 show ?thesis by auto
      qed
    qed
    finally show ?thesis .
  qed
qed





lemma higher_cases: "higher x y = x \<or> higher x y = y"
  by (simp add: higher_def)

lemma higher_height: "Height x \<le> Height (higher x y) \<and> Height y \<le> Height (higher x y)"
  by (simp add: higher_def)

lemma foldl_higher_mem: "foldl higher b bs \<in> set (b # bs)"
proof (induction bs arbitrary: b)
  case Nil
  show ?case by simp
next
  case (Cons a bs)
  from Cons.IH [of "higher b a"] higher_cases [of b a] show ?case by auto
qed

lemma foldl_higher_start: "Height b \<le> Height (foldl higher b bs)"
proof (induction bs arbitrary: b)
  case Nil
  show ?case by simp
next
  case (Cons a bs)
  from Cons.IH [of "higher b a"] higher_height [of b a] show ?case by auto
qed

lemma foldl_higher_max: "x \<in> set (b # bs) \<Longrightarrow> Height x \<le> Height (foldl higher b bs)"
proof (induction bs arbitrary: b)
  case Nil
  then show ?case by simp
next
  case (Cons a bs)
  from Cons.prems consider "x = b" | "x = a" | "x \<in> set bs" by auto
  then show ?case
  proof cases
    case 1
    with foldl_higher_start [of "higher b a" bs] higher_height [of b a] show ?thesis by auto
  next
    case 2
    with foldl_higher_start [of "higher b a" bs] higher_height [of b a] show ?thesis by auto
  next
    case 3
    then have "x \<in> set (higher b a # bs)" by simp
    then show ?thesis using Cons.IH by simp
  qed
qed

lemma highestOf_mem: "candidates \<noteq> [] \<Longrightarrow> highestOf root candidates \<in> set candidates"
  using foldl_higher_mem by (cases candidates) (auto simp: highestOf_def)

lemma highestOf_max: "x \<in> set candidates \<Longrightarrow> Height x \<le> Height (highestOf root candidates)"
  using foldl_higher_max by (cases candidates) (auto simp: highestOf_def)

lemma highestOf_only_root:
  "set candidates \<subseteq> {root} \<Longrightarrow> highestOf root candidates = root"
proof (cases candidates)
  case Nil
  then show ?thesis by (simp add: highestOf_def)
next
  case (Cons b bs)
  assume "set candidates \<subseteq> {root}"
  moreover have "highestOf root candidates \<in> set candidates"
    using Cons by (intro highestOf_mem) simp
  ultimately show ?thesis by auto
qed

text \<open>
  Claim C4. Call a block qualified when every block on its path from the root, itself
  included, has \<open>Valid\<close> set. \<open>GetTipToVote\<close> is at least as high as every qualified block;
  when some block is qualified, it is itself a qualified block of the tree; and when no
  block other than the root is qualified, it is the root.
\<close>

theorem GetTipToVote_highest_valid:
  "(\<forall>p \<in> set (paths c). list_all Valid p \<longrightarrow> Height (last p) \<le> Height (GetTipToVote c)) \<and>
   ((\<exists>p \<in> set (paths c). list_all Valid p) \<longrightarrow>
      (\<exists>p \<in> set (paths c). list_all Valid p \<and> last p = GetTipToVote c)) \<and>
   ((\<forall>p \<in> set (paths c). list_all Valid p \<longrightarrow> p = [rootBlock c]) \<longrightarrow>
      GetTipToVote c = rootBlock c)"
proof (intro conjI ballI impI)
  fix p assume "p \<in> set (paths c)" "list_all Valid p"
  then have "last p \<in> set (voteCandidates c)"
    by (simp add: voteCandidates_paths)
  then show "Height (last p) \<le> Height (GetTipToVote c)"
    unfolding GetTipToVote_def by (rule highestOf_max)
next
  assume "\<exists>p \<in> set (paths c). list_all Valid p"
  then have "set (voteCandidates c) \<noteq> {}"
    by (auto simp: voteCandidates_paths)
  then have "voteCandidates c \<noteq> []" by auto
  then have "GetTipToVote c \<in> set (voteCandidates c)"
    unfolding GetTipToVote_def by (rule highestOf_mem)
  then show "\<exists>p \<in> set (paths c). list_all Valid p \<and> last p = GetTipToVote c"
    by (auto simp: voteCandidates_paths)
next
  assume "\<forall>p \<in> set (paths c). list_all Valid p \<longrightarrow> p = [rootBlock c]"
  then have "set (voteCandidates c) \<subseteq> {rootBlock c}"
    by (auto simp: voteCandidates_paths)
  then show "GetTipToVote c = rootBlock c"
    unfolding GetTipToVote_def by (rule highestOf_only_root)
qed

lemma tipSelection_paths:
  "paths tipSelectionChain =
    [[testBlock 1 0 0 True],
     [testBlock 1 0 0 True, testBlock 11 1 1 False],
     [testBlock 1 0 0 True, testBlock 11 1 1 False, testBlock 12 11 2 False],
     [testBlock 1 0 0 True, testBlock 21 1 1 False],
     [testBlock 1 0 0 True, testBlock 21 1 1 False, testBlock 22 21 2 False],
     [testBlock 1 0 0 True, testBlock 21 1 1 False, testBlock 22 21 2 False,
      testBlock 23 22 3 False]]"
  by (simp add: tipSelectionChain_def)

lemma allValidChain_eq:
  "allValidChain =
     Node (testBlock 1 0 0 True)
       [Node (testBlock 11 1 1 True) [Node (testBlock 12 11 2 True) []],
        Node (testBlock 21 1 1 True)
          [Node (testBlock 22 21 2 True) [Node (testBlock 23 22 3 True) []]]]"
  by (simp add: allValidChain_def tipSelectionChain_def MarkBlockValid_def testBlock_def)

text \<open>
  In the chain of the test the tip to vote is the root while only the root is valid,
  and \<open>b3\<close>, at height 3, once all blocks are marked valid.
\<close>

theorem GetTipToVote_highest_valid_witness:
  "GetTipToVote tipSelectionChain = testBlock 1 0 0 True \<and>
   GetTipToVote allValidChain = testBlock 23 22 3 True \<and>
   [testBlock 1 0 0 True, testBlock 21 1 1 True, testBlock 22 21 2 True,
      testBlock 23 22 3 True] \<in> set (paths allValidChain) \<and>
   3 \<le> Height (GetTipToVote allValidChain)"
proof -
  note r1 = GetTipToVote_highest_valid [of tipSelectionChain]
  have only_root: "\<forall>p \<in> set (paths tipSelectionChain).
      list_all Valid p \<longrightarrow> p = [rootBlock tipSelectionChain]"
    by (simp add: tipSelection_paths) (simp add: tipSelectionChain_def testBlock_def)
  from r1 only_root have "GetTipToVote tipSelectionChain = rootBlock tipSelectionChain"
    by blast
  then have a: "GetTipToVote tipSelectionChain = testBlock 1 0 0 True"
    by (simp add: tipSelectionChain_def)
  let ?p = "[testBlock 1 0 0 True, testBlock 21 1 1 True, testBlock 22 21 2 True,
      testBlock 23 22 3 True]"
  have p: "?p \<in> set (paths allValidChain)"
    by (simp add: allValidChain_eq)
  have v: "list_all Valid ?p" by (simp add: testBlock_def)
  note r2 = GetTipToVote_highest_valid [of allValidChain]
  from r2 p v have "Height (last ?p) \<le> Height (GetTipToVote allValidChain)"
    by blast
  then have h: "3 \<le> Height (GetTipToVote allValidChain)"
    by (simp add: testBlock_def)
  have b: "GetTipToVote allValidChain = testBlock 23 22 3 True"
    by (simp add: allValidChain_eq GetTipToVote_def highestOf_def higher_def testBlock_def)
  from a b p h show ?thesis by blast
qed





section \<open>Properties of Broadcast\<close>

lemma accounted_Broadcast: "accounted msgr message (Broadcast msgr message)"
  by (simp add: accounted_def Broadcast_def delivered_def markers_def Let_def)

lemma markers_remove:
  assumes "i < length ps"
  shows "markers msgr message ps =
    add_mset (Send msgr (peer_ID (ps ! i)) message)
      (markers msgr message (take i ps @ drop (Suc i) ps))"
proof -
  have "ps = take i ps @ ps ! i # drop (Suc i) ps"
    using assms by (rule id_take_nth_drop)
  then have "mset ps = add_mset (ps ! i) (mset (take i ps @ drop (Suc i) ps))"
    by (metis mset.simps(2) mset_append union_mset_add_mset_right)
  then show ?thesis by (simp add: markers_def)
qed

lemma accounted_goroutineSend:
  assumes "accounted msgr message r" and "goroutineSend msgr message i r = Some r'"
  shows "accounted msgr message r'"
proof -
  from assms(2) have i: "i < length (goroutines r)"
    and r': "r' = r\<lparr>successes := (successes r)
                     \<lparr>buf := buf (successes r) @ [Send msgr (peer_ID (goroutines r ! i)) message]\<rparr>,
                   goroutines := take i (goroutines r) @ drop (Suc i) (goroutines r)\<rparr>"
    by (auto simp: goroutineSend_def split: if_splits)
  from assms(1) markers_remove [OF i, of msgr message] show ?thesis
    by (simp add: accounted_def delivered_def r')
qed

lemma accounted_chanReceive:
  assumes "accounted msgr message r" and "chanReceive r = Some r'"
  shows "accounted msgr message r'"
  using assms by (auto simp: accounted_def delivered_def chanReceive_def split: list.splits)

lemma accounted_schedule:
  "accounted msgr message r \<Longrightarrow> schedule msgr message r es = Some r' \<Longrightarrow>
   accounted msgr message r'"
proof (induction es arbitrary: r)
  case Nil
  then show ?case by simp
next
  case (Cons e es)
  show ?case
  proof (cases e)
    case (GoroutineSends i)
    with Cons.prems(2) obtain r1 where s: "goroutineSend msgr message i r = Some r1"
      and rest: "schedule msgr message r1 es = Some r'"
      by (auto split: option.splits)
    from Cons.prems(1) s have "accounted msgr message r1" by (rule accounted_goroutineSend)
    then show ?thesis using rest by (rule Cons.IH)
  next
    case CallerReceives
    with Cons.prems(2) obtain r1 where s: "chanReceive r = Some r1"
      and rest: "schedule msgr message r1 es = Some r'"
      by (auto split: option.splits)
    from Cons.prems(1) s have "accounted msgr message r1" by (rule accounted_chanReceive)
    then show ?thesis using rest by (rule Cons.IH)
  qed
qed

lemma accounted_room:
  assumes "accounted msgr message r" and "i < length (goroutines r)"
  shows "length (buf (successes r)) < cap (successes r)"
proof -
  from assms(1) have "size (mset (delivered r) + markers msgr message (goroutines r)) =
      size (markers msgr message (GetAllPeers (peerTable msgr)))"
    by (simp only: accounted_def)
  then have "length (delivered r) + length (goroutines r) =
      length (GetAllPeers (peerTable msgr))"
    by (simp add: markers_def)
  with assms show ?thesis by (simp add: accounted_def delivered_def)
qed

lemma schedule_all_send:
  "accounted msgr message r \<Longrightarrow>
   schedule msgr message r (replicate (length (goroutines r)) (GoroutineSends 0)) =
     Some (r\<lparr>successes := (successes r)
                 \<lparr>buf := buf (successes r) @
                    map (\<lambda>peer. Send msgr (peer_ID peer) message) (goroutines r)\<rparr>,
              goroutines := []\<rparr>)"
proof (induction "goroutines r" arbitrary: r)
  case Nil
  then show ?case by simp
next
  case (Cons p ps)
  from Cons.hyps(2) have len: "0 < length (goroutines r)" by (metis length_greater_0_conv list.discI)
  have room: "length (buf (successes r)) < cap (successes r)"
    using Cons.prems len by (rule accounted_room)
  let ?r1 = "r\<lparr>successes := (successes r)
                     \<lparr>buf := buf (successes r) @ [Send msgr (peer_ID p) message]\<rparr>,
                   goroutines := ps\<rparr>"
  have s: "goroutineSend msgr message 0 r = Some ?r1"
    using room Cons.hyps(2) [symmetric] by (simp add: goroutineSend_def)
  have acc: "accounted msgr message ?r1"
    using Cons.prems s by (rule accounted_goroutineSend)
  have ps: "ps = goroutines ?r1" by simp
  from Cons.hyps(1) [OF ps acc] s Cons.hyps(2) [symmetric] show ?case
    by simp
qed

text \<open>
  Claim C8. The channel \<open>Broadcast\<close> returns has as many places as the peer table has
  peers at the call. Whatever the scheduler does afterwards, the capacity stays that
  number, the markers delivered so far together with those of the goroutines still
  waiting are exactly the results of \<open>Send\<close> to the peers of the table, one per peer; no
  waiting goroutine is ever blocked by a full buffer; once every goroutine has sent,
  the markers delivered are exactly one per peer; and the goroutines still waiting can
  always all run to the end.
\<close>

theorem Broadcast_one_marker_per_peer:
  "cap (successes (Broadcast msgr message)) = length (GetAllPeers (peerTable msgr)) \<and>
   (\<forall>es r. schedule msgr message (Broadcast msgr message) es = Some r \<longrightarrow>
      cap (successes r) = length (GetAllPeers (peerTable msgr)) \<and>
      mset (delivered r) + markers msgr message (goroutines r) =
        markers msgr message (GetAllPeers (peerTable msgr)) \<and>
      (\<forall>i < length (goroutines r). goroutineSend msgr message i r \<noteq> None) \<and>
      (goroutines r = [] \<longrightarrow>
         mset (delivered r) = markers msgr message (GetAllPeers (peerTable msgr))) \<and>
      (\<exists>r'. schedule msgr message r
              (replicate (length (goroutines r)) (GoroutineSends 0)) = Some r' \<and>
            goroutines r' = []))"
proof (intro conjI allI impI)
  show "cap (successes (Broadcast msgr message)) = length (GetAllPeers (peerTable msgr))"
    by (simp add: Broadcast_def Let_def)
next
  fix es r
  assume run: "schedule msgr message (Broadcast msgr message) es = Some r"
  have acc: "accounted msgr message r"
    using accounted_Broadcast run by (rule accounted_schedule)
  then show "cap (successes r) = length (GetAllPeers (peerTable msgr))"
    and sum: "mset (delivered r) + markers msgr message (goroutines r) =
        markers msgr message (GetAllPeers (peerTable msgr))"
    by (simp_all add: accounted_def)
  show "\<exists>r'. schedule msgr message r
              (replicate (length (goroutines r)) (GoroutineSends 0)) = Some r' \<and>
            goroutines r' = []"
    using schedule_all_send [OF acc] by simp
  {
    assume "goroutines r = []"
    with sum show "mset (delivered r) = markers msgr message (GetAllPeers (peerTable msgr))"
      by (simp add: markers_def)
  }
  {
    fix i assume "i < length (goroutines r)"
    with acc show "goroutineSend msgr message i r \<noteq> None"
      using accounted_room [of msgr message r i] by (simp add: goroutineSend_def)
  }
qed

text \<open>
  With the peers alice and bob the channel has two places; bob's goroutine runs first,
  the caller takes its marker, then alice's goroutine runs: one marker for each.
\<close>

theorem Broadcast_one_marker_per_peer_witness:
  "cap (successes (Broadcast connectedMessenger hello)) = 2 \<and>
   schedule connectedMessenger hello (Broadcast connectedMessenger hello)
     [GoroutineSends 1, CallerReceives, GoroutineSends 0] =
     Some \<lparr>successes = \<lparr>cap = 2, buf = [True]\<rparr>, goroutines = [], received = [False]\<rparr> \<and>
   mset (delivered \<lparr>successes = \<lparr>cap = 2, buf = [True]\<rparr>, goroutines = [],
                     received = [False]\<rparr>) =
     markers connectedMessenger hello [alice, bob] \<and>
   markers connectedMessenger hello [alice, bob] = {#True, False#}"
proof -
  have peers: "GetAllPeers (peerTable connectedMessenger) = [alice, bob]"
    by (simp add: connectedMessenger_def twoPeers_def)
  have sa: "Send connectedMessenger ''alice'' hello = True"
    by (simp add: Send_def connectedMessenger_def twoPeers_def alice_def)
  have sb: "Send connectedMessenger ''bob'' hello = False"
    by (simp add: Send_def connectedMessenger_def twoPeers_def bob_def)
  have ids: "peer_ID alice = ''alice''" "peer_ID bob = ''bob''"
    by (simp_all add: alice_def bob_def)
  have run: "schedule connectedMessenger hello (Broadcast connectedMessenger hello)
     [GoroutineSends 1, CallerReceives, GoroutineSends 0] =
     Some \<lparr>successes = \<lparr>cap = 2, buf = [True]\<rparr>, goroutines = [], received = [False]\<rparr>"
    by (simp add: Broadcast_def Let_def peers goroutineSend_def chanReceive_def sa sb ids)
  note r = Broadcast_one_marker_per_peer [of connectedMessenger hello]
  from r have c: "cap (successes (Broadcast connectedMessenger hello)) = 2"
    by (simp add: peers)
  from r run have "mset (delivered \<lparr>successes = \<lparr>cap = 2, buf = [True]\<rparr>, goroutines = [],
                     received = [False]\<rparr>) =
     markers connectedMessenger hello (GetAllPeers (peerTable connectedMessenger))"
    by (metis (no_types, lifting) BroadcastRun.select_convs(2))
  then have m: "mset (delivered \<lparr>successes = \<lparr>cap = 2, buf = [True]\<rparr>, goroutines = [],
                     received = [False]\<rparr>) = markers connectedMessenger hello [alice, bob]"
    by (simp only: peers)
  have v: "markers connectedMessenger hello [alice, bob] = {#True, False#}"
    by (simp add: markers_def sa sb ids)
  from c run m v show ?thesis by blast
qed

section \<open>Properties of AddMessageHandler\<close>

lemma loop_result:
  "snd (addMessageHandlerLoop msgr h ids) =
     (distinct ids \<and> (\<forall>c \<in> set ids. msgHandlerMap msgr c = None))"
proof (induction ids arbitrary: msgr)
  case Nil
  show ?case by simp
next
  case (Cons c cs)
  show ?case
  proof (cases "msgHandlerMap msgr c")
    case None
    then show ?thesis using Cons.IH by auto
  next
    case (Some g)
    then show ?thesis by simp
  qed
qed

lemma loop_unchanged_on_reject:
  "msgHandlerMap msgr c \<noteq> None \<Longrightarrow> addMessageHandlerLoop msgr h (c # cs) = (msgr, False)"
  by simp

lemma loop_append:
  "distinct ids \<Longrightarrow> (\<forall>c \<in> set ids. msgHandlerMap msgr c = None) \<Longrightarrow>
   addMessageHandlerLoop msgr h (ids @ rest) =
   addMessageHandlerLoop (msgr\<lparr>msgHandlerMap := (\<lambda>c. if c \<in> set ids then Some h else msgHandlerMap msgr c)\<rparr>) h rest"
proof (induction ids arbitrary: msgr)
  case Nil
  show ?case by simp
next
  case (Cons c cs)
  let ?m = "msgr\<lparr>msgHandlerMap := (msgHandlerMap msgr)(c \<mapsto> h)\<rparr>"
  from Cons.prems have free: "msgHandlerMap msgr c = None" and notin: "c \<notin> set cs"
    and dist: "distinct cs" by simp_all
  from Cons.prems notin have rest: "\<forall>d \<in> set cs. msgHandlerMap ?m d = None" by auto
  have same: "(\<lambda>d. if d \<in> set cs then Some h else msgHandlerMap ?m d) =
              (\<lambda>d. if d \<in> set (c # cs) then Some h else msgHandlerMap msgr d)"
    by (rule ext) simp
  have "addMessageHandlerLoop msgr h ((c # cs) @ rest) = addMessageHandlerLoop ?m h (cs @ rest)"
    using free by simp
  also have "\<dots> = addMessageHandlerLoop
      (?m\<lparr>msgHandlerMap := (\<lambda>d. if d \<in> set cs then Some h else msgHandlerMap ?m d)\<rparr>) h rest"
    by (rule Cons.IH [OF dist rest])
  also have "\<dots> = addMessageHandlerLoop
      (msgr\<lparr>msgHandlerMap := (\<lambda>d. if d \<in> set (c # cs) then Some h else msgHandlerMap msgr d)\<rparr>) h rest"
    by (simp only: same) simp
  finally show ?case .
qed

lemma loop_stops_at:
  assumes k: "k < length ids"
    and dist: "distinct (take k ids)"
    and before: "\<forall>i < k. msgHandlerMap msgr (ids ! i) = None"
    and at: "msgHandlerMap msgr (ids ! k) \<noteq> None"
  shows "addMessageHandlerLoop msgr h ids =
     (msgr\<lparr>msgHandlerMap :=
         (\<lambda>c. if c \<in> set (take k ids) then Some h else msgHandlerMap msgr c)\<rparr>, False)"
proof -
  have split: "ids = take k ids @ ids ! k # drop (Suc k) ids"
    using k by (rule id_take_nth_drop)
  have free: "\<forall>c \<in> set (take k ids). msgHandlerMap msgr c = None"
  proof
    fix c assume "c \<in> set (take k ids)"
    then obtain i where "i < length (take k ids)" and "take k ids ! i = c"
      by (auto simp: in_set_conv_nth)
    then have "i < k" and "ids ! i = c" by simp_all
    with before show "msgHandlerMap msgr c = None" by auto
  qed
  let ?m = "msgr\<lparr>msgHandlerMap :=
         (\<lambda>c. if c \<in> set (take k ids) then Some h else msgHandlerMap msgr c)\<rparr>"
  have taken: "msgHandlerMap ?m (ids ! k) \<noteq> None"
    using at by simp
  have "addMessageHandlerLoop msgr h (take k ids @ ids ! k # drop (Suc k) ids) =
        addMessageHandlerLoop ?m h (ids ! k # drop (Suc k) ids)"
    by (rule loop_append [OF dist free])
  also have "\<dots> = (?m, False)"
    using taken by (rule loop_unchanged_on_reject)
  finally show ?thesis using split by simp
qed

text \<open>
  Claim C9, as amended. \<open>AddMessageHandler\<close> returns true exactly when the handler's
  channel-ID list has no repeated entry and none of its channel IDs reads non-nil in
  \<open>msgHandlerMap\<close> at the call; in that case the handler is stored under every channel
  ID of the list and nothing else changes. It returns false when one of the channel IDs
  already has a handler, and also when the list names a channel ID twice: the second
  occurrence finds the entry the first one has just written.
\<close>

theorem AddMessageHandler_result:
  "snd (AddMessageHandler msgr h) =
     (distinct (GetChannelIDs h) \<and> (\<forall>c \<in> set (GetChannelIDs h). msgHandlerMap msgr c = None)) \<and>
   (snd (AddMessageHandler msgr h) \<longrightarrow>
      fst (AddMessageHandler msgr h) =
        msgr\<lparr>msgHandlerMap :=
          (\<lambda>c. if c \<in> set (GetChannelIDs h) then Some h else msgHandlerMap msgr c)\<rparr>)"
proof (intro conjI impI)
  show "snd (AddMessageHandler msgr h) =
     (distinct (GetChannelIDs h) \<and> (\<forall>c \<in> set (GetChannelIDs h). msgHandlerMap msgr c = None))"
    unfolding AddMessageHandler_def by (rule loop_result)
next
  assume ok: "snd (AddMessageHandler msgr h)"
  then have d: "distinct (GetChannelIDs h)"
    and f: "\<forall>c \<in> set (GetChannelIDs h). msgHandlerMap msgr c = None"
    unfolding AddMessageHandler_def loop_result by simp_all
  have "addMessageHandlerLoop msgr h (GetChannelIDs h @ []) =
        addMessageHandlerLoop (msgr\<lparr>msgHandlerMap :=
          (\<lambda>c. if c \<in> set (GetChannelIDs h) then Some h else msgHandlerMap msgr c)\<rparr>) h []"
    by (rule loop_append [OF d f])
  then show "fst (AddMessageHandler msgr h) =
        msgr\<lparr>msgHandlerMap :=
          (\<lambda>c. if c \<in> set (GetChannelIDs h) then Some h else msgHandlerMap msgr c)\<rparr>"
    unfolding AddMessageHandler_def by simp
qed

text \<open>A fresh messenger accepts a handler for the channels 1, 2 and 3.\<close>

theorem AddMessageHandler_result_witness:
  "snd (AddMessageHandler freshMessenger syncHandler) = True \<and>
   msgHandlerMap (fst (AddMessageHandler freshMessenger syncHandler)) 1 = Some syncHandler \<and>
   msgHandlerMap (fst (AddMessageHandler freshMessenger syncHandler)) 2 = Some syncHandler \<and>
   msgHandlerMap (fst (AddMessageHandler freshMessenger syncHandler)) 3 = Some syncHandler \<and>
   msgHandlerMap (fst (AddMessageHandler freshMessenger syncHandler)) 4 = None"
proof -
  have ids: "GetChannelIDs syncHandler = [1, 2, 3]"
    by (simp add: syncHandler_def)
  have empty: "msgHandlerMap freshMessenger = Map.empty"
    by (simp add: freshMessenger_def)
  note r = AddMessageHandler_result [of freshMessenger syncHandler]
  from r have ok: "snd (AddMessageHandler freshMessenger syncHandler)"
    by (simp add: ids empty)
  with r have "fst (AddMessageHandler freshMessenger syncHandler) =
     freshMessenger\<lparr>msgHandlerMap :=
        (\<lambda>c. if c \<in> set (GetChannelIDs syncHandler) then Some syncHandler
             else msgHandlerMap freshMessenger c)\<rparr>"
    by blast
  with ok show ?thesis by (simp add: ids empty)
qed

text \<open>
  Claim C9 as stated fails: on a fresh messenger, where no channel ID has a handler,
  a handler listing channel 7 twice is answered false (and channel 7 is left mapped to
  it).
\<close>

theorem AddMessageHandler_repeated_id_counterexample:
  "GetChannelIDs twiceHandler = [7, 7] \<and>
   msgHandlerMap freshMessenger 7 = None \<and>
   snd (AddMessageHandler freshMessenger twiceHandler) = False \<and>
   msgHandlerMap (fst (AddMessageHandler freshMessenger twiceHandler)) 7 = Some twiceHandler"
  by (simp add: AddMessageHandler_def twiceHandler_def freshMessenger_def)

text \<open>
  Claim C10. When the loop of \<open>AddMessageHandler\<close> reaches position \<open>k\<close> of the
  handler's channel-ID list (the entries before it are pairwise different and had no
  handler) and finds that channel ID already registered, the call returns false, every
  channel ID before position \<open>k\<close> is now mapped to the new handler, every other channel
  ID is mapped as before, and for \<open>k > 0\<close> the messenger is not the one the call started
  from: the rejection is not atomic.
\<close>

theorem AddMessageHandler_not_atomic:
  assumes "k < length (GetChannelIDs h)"
    and "distinct (take k (GetChannelIDs h))"
    and "\<forall>i < k. msgHandlerMap msgr (GetChannelIDs h ! i) = None"
    and "msgHandlerMap msgr (GetChannelIDs h ! k) \<noteq> None"
  shows "snd (AddMessageHandler msgr h) = False \<and>
    (\<forall>i < k. msgHandlerMap (fst (AddMessageHandler msgr h)) (GetChannelIDs h ! i) = Some h) \<and>
    (\<forall>c. c \<notin> set (take k (GetChannelIDs h)) \<longrightarrow>
        msgHandlerMap (fst (AddMessageHandler msgr h)) c = msgHandlerMap msgr c) \<and>
    (0 < k \<longrightarrow> fst (AddMessageHandler msgr h) \<noteq> msgr)"
proof -
  let ?ids = "GetChannelIDs h"
  let ?m = "msgr\<lparr>msgHandlerMap :=
         (\<lambda>c. if c \<in> set (take k ?ids) then Some h else msgHandlerMap msgr c)\<rparr>"
  have run: "AddMessageHandler msgr h = (?m, False)"
    unfolding AddMessageHandler_def using assms by (rule loop_stops_at)
  have prefix: "\<forall>i < k. ?ids ! i \<in> set (take k ?ids)"
  proof (intro allI impI)
    fix i assume "i < k"
    with assms(1) have "i < length (take k ?ids)" and "take k ?ids ! i = ?ids ! i" by simp_all
    then show "?ids ! i \<in> set (take k ?ids)" by (metis nth_mem)
  qed
  have changed: "0 < k \<longrightarrow> ?m \<noteq> msgr"
  proof
    assume pos: "0 < k"
    with prefix have "msgHandlerMap ?m (?ids ! 0) = Some h" by simp
    moreover from assms(3) pos have "msgHandlerMap msgr (?ids ! 0) = None" by simp
    ultimately show "?m \<noteq> msgr" by (metis option.distinct(1))
  qed
  show ?thesis
    using prefix changed by (simp add: run)
qed

text \<open>
  Channel 3 belongs to the block handler; registering a handler for 1, 2 and 3 fails
  and leaves 1 and 2 mapped to the rejected handler.
\<close>

theorem AddMessageHandler_not_atomic_witness:
  "snd (AddMessageHandler registeredMessenger syncHandler) = False \<and>
   msgHandlerMap registeredMessenger 1 = None \<and>
   msgHandlerMap registeredMessenger 2 = None \<and>
   msgHandlerMap registeredMessenger 3 = Some blockHandler \<and>
   msgHandlerMap (fst (AddMessageHandler registeredMessenger syncHandler)) 1 = Some syncHandler \<and>
   msgHandlerMap (fst (AddMessageHandler registeredMessenger syncHandler)) 2 = Some syncHandler \<and>
   msgHandlerMap (fst (AddMessageHandler registeredMessenger syncHandler)) 3 = Some blockHandler \<and>
   fst (AddMessageHandler registeredMessenger syncHandler) \<noteq> registeredMessenger"
proof -
  have ids: "GetChannelIDs syncHandler = [1, 2, 3]"
    by (simp add: syncHandler_def)
  have reg: "msgHandlerMap registeredMessenger = [3 \<mapsto> blockHandler]"
    by (simp add: registeredMessenger_def AddMessageHandler_def freshMessenger_def
        blockHandler_def)
  have h1: "2 < length (GetChannelIDs syncHandler)" by (simp add: ids)
  have h2: "distinct (take 2 (GetChannelIDs syncHandler))" by (simp add: ids)
  have h3: "\<forall>i < 2. msgHandlerMap registeredMessenger (GetChannelIDs syncHandler ! i) = None"
    by (simp add: ids reg less_Suc_eq numeral_2_eq_2)
  have h4: "msgHandlerMap registeredMessenger (GetChannelIDs syncHandler ! 2) \<noteq> None"
    by (simp add: ids reg)
  note r = AddMessageHandler_not_atomic [OF h1 h2 h3 h4]
  from r have a: "snd (AddMessageHandler registeredMessenger syncHandler) = False"
    and c: "fst (AddMessageHandler registeredMessenger syncHandler) \<noteq> registeredMessenger"
    by simp_all
  from r have b: "\<forall>i < 2. msgHandlerMap (fst (AddMessageHandler registeredMessenger syncHandler))
        (GetChannelIDs syncHandler ! i) = Some syncHandler"
    by blast
  from b have b0: "msgHandlerMap (fst (AddMessageHandler registeredMessenger syncHandler)) 1
        = Some syncHandler"
    using ids by (metis nth_Cons_0 zero_less_numeral)
  from b have b1: "msgHandlerMap (fst (AddMessageHandler registeredMessenger syncHandler)) 2
        = Some syncHandler"
    using ids by (metis One_nat_def nth_Cons_0 nth_Cons_Suc one_less_numeral_iff semiring_norm(76))
  from r have "msgHandlerMap (fst (AddMessageHandler registeredMessenger syncHandler)) 3
        = msgHandlerMap registeredMessenger 3"
    by (simp add: ids)
  with a b0 b1 c show ?thesis by (simp add: reg)
qed

end
